theory Spec2Isabelle
  imports Main
begin

section \<open>String vectors\<close>

text \<open>
  A \<^verbatim>\<open>strvec_t\<close> is a growable array of C strings; the model keeps its contents as a
  list. The pipeline code only goes through the interface of \<^verbatim>\<open>string_vector.h\<close>.
\<close>

type_synonym strvec = "string list"

text \<open>
  Modelled from the spec: \<^verbatim>\<open>string_vector.c\<close> is not among the sources.
  \<^verbatim>\<open>strvec_num_occurrences\<close> is the count of the tokens equal to the separator (a
  non-negative C \<^verbatim>\<open>int\<close>, kept as a natural number).
\<close>

definition strvec_num_occurrences :: "strvec \<Rightarrow> string \<Rightarrow> nat" where
  "strvec_num_occurrences v s = length (filter (\<lambda>t. t = s) v)"

text \<open>
  Modelled from the spec: \<^verbatim>\<open>string_vector.c\<close> is not among the sources.
  \<^verbatim>\<open>strvec_find_last\<close> locates the last separator token: its index, or \<open>-1\<close> when there
  is none, which is the value the caller tests for.
\<close>

fun strvec_find_last :: "strvec \<Rightarrow> string \<Rightarrow> int" where
  "strvec_find_last [] s = -1"
| "strvec_find_last (t # ts) s =
     (let r = strvec_find_last ts s
      in if r \<noteq> -1 then r + 1 else if t = s then 0 else -1)"

text \<open>
  Modelled from the spec: \<^verbatim>\<open>string_vector.c\<close> is not among the sources.
  \<^verbatim>\<open>strvec_take\<close> truncates the sequence at an index, discarding everything from that
  index onward.
\<close>

definition strvec_take :: "strvec \<Rightarrow> int \<Rightarrow> strvec" where
  "strvec_take v n = take (nat n) v"

text \<open>
  Modelled from the spec: \<^verbatim>\<open>string_vector.c\<close> is not among the sources.
  \<^verbatim>\<open>strvec_slice\<close> gives the sub-range from \<open>start\<close> up to \<open>stop\<close> (exclusive); \<open>None\<close>
  is the return value \<open>-1\<close>, taken here for a range that does not lie inside the vector.
\<close>

definition strvec_slice :: "strvec \<Rightarrow> int \<Rightarrow> int \<Rightarrow> strvec option" where
  "strvec_slice v start stop =
     (if 0 \<le> start \<and> start \<le> stop \<and> stop \<le> int (length v)
      then Some (take (nat (stop - start)) (drop (nat start) v))
      else None)"

text \<open>
  Modelled from the spec: \<^verbatim>\<open>string_vector.c\<close> is not among the sources.
  \<^verbatim>\<open>strvec_clear\<close> empties the vector.
\<close>

definition strvec_clear :: "strvec \<Rightarrow> strvec" where
  "strvec_clear v = []"

section \<open>Processes, descriptors and the operating system\<close>

text \<open>
  A pipe endpoint is identified by its index in the array \<^verbatim>\<open>pipe_fds\<close>: channel \<open>i\<close> has
  its read end at \<open>2 * i\<close> and its write end at \<open>2 * i + 1\<close>. The state of one process
  holds the token vector it sees, the endpoints open in its descriptor table, and the
  endpoints its standard input and output were redirected to by \<^verbatim>\<open>dup2\<close>, and whether
  text printed by \<^verbatim>\<open>printf\<close> is waiting in the buffer of standard output (the caller
  is taken to enter the call with that buffer empty).
  The indices are C \<^verbatim>\<open>int\<close>s; they stay far below \<open>2^31\<close> (twice the number of
  tokens), so they are modelled as unbounded integers.
\<close>

record proc =
  tokens :: strvec
  fds :: "int list"
  stdin_src :: "int option"
  stdout_dst :: "int option"
  stdout_buffered :: bool

text \<open>What \<^verbatim>\<open>wait\<close> reports: \<^verbatim>\<open>WIFEXITED\<close> with \<^verbatim>\<open>WEXITSTATUS\<close>, or anything else.\<close>

datatype wstatus = Exited nat | Signaled nat

text \<open>
  The single-command executor \<^verbatim>\<open>run_command\<close> either comes back with a value, or it
  has replaced the process by the external program, which ends with some status.
\<close>

datatype launch = Returns int | TakesOver wstatus

text \<open>
  The answers of the system calls are parameters. Each of \<^verbatim>\<open>pipe\<close> and \<^verbatim>\<open>fork\<close> is
  called at most once per channel and stage; the result of \<^verbatim>\<open>close\<close> on an endpoint is
  inspected at most once per process on any path (a repeated \<^verbatim>\<open>close\<close> has its result
  discarded or leads to the same exit), so it is given per endpoint. \<open>wait_status e k\<close>
  is the status delivered by call number \<open>k\<close> of \<^verbatim>\<open>wait\<close>: the code ignores the
  return value of \<^verbatim>\<open>wait\<close>, and the contexts forked by this call are taken to be the
  only children of the process, so that each call collects one of them.
\<close>

record env =
  malloc_ok :: bool
  pipe_ok :: "nat \<Rightarrow> bool"
  fork_ok :: "nat \<Rightarrow> bool"
  close_ok :: "int \<Rightarrow> bool"
  wait_status :: "nat \<Rightarrow> wstatus"

record cenv =
  c_close_ok :: "int \<Rightarrow> bool"
  dup2_ok :: "int \<Rightarrow> bool"
  run_command :: "strvec \<Rightarrow> launch"
  flush_ok :: bool

text \<open>
  A spawned context: its stage, the two indices computed before \<^verbatim>\<open>fork\<close>, and the
  copy of the parent's state it starts from.
\<close>

record child =
  stage :: nat
  c_in_idx :: int
  c_out_idx :: int
  start :: proc

text \<open>The orchestrator as the kernel sees it: its own state, the children, the collected statuses.\<close>

record world =
  me :: proc
  children :: "child list"
  reaped :: "wstatus list"

text \<open>
  How a call of \<^verbatim>\<open>run_pipelined_commands\<close> ends: it returns a value to its caller, or
  the calling process ends through \<^verbatim>\<open>exit\<close>.
\<close>

datatype outcome = Returned int | ProcExit int

text \<open>
  How a piece of the child's code ends: control goes on with a value, or the process is
  over, with the status its parent will collect and the state it ended in.
\<close>

datatype 'a flow = Continue 'a | Terminated wstatus proc

text \<open>
  A successful \<^verbatim>\<open>close\<close> removes the endpoint from the descriptor table; a failed one
  leaves the table as it was. \<^verbatim>\<open>pipe\<close> adds both ends of channel \<open>i\<close>.
\<close>

definition sys_close :: "(int \<Rightarrow> bool) \<Rightarrow> int \<Rightarrow> proc \<Rightarrow> bool \<times> proc" where
  "sys_close ok k p = (if ok k then (True, p\<lparr>fds := removeAll k (fds p)\<rparr>) else (False, p))"

definition sys_pipe :: "nat \<Rightarrow> proc \<Rightarrow> proc" where
  "sys_pipe i p = p\<lparr>fds := fds p @ [2 * int i, 2 * int i + 1]\<rparr>"

definition init_proc :: "strvec \<Rightarrow> proc" where
  "init_proc toks =
     \<lparr>tokens = toks, fds = [], stdin_src = None, stdout_dst = None, stdout_buffered = False\<rparr>"

text \<open>
  \<^verbatim>\<open>exit\<close> writes out what is waiting in the buffer of standard output. The only text
  the child ever prints there is that of line 42, which ends in no newline and so stays
  in the buffer until the process exits. When standard output is then a pipe that no
  process reads any more, the write raises \<^verbatim>\<open>SIGPIPE\<close> and the process ends by signal 13
  instead of exiting with its code; \<open>flush_ok\<close> says that this does not happen.
\<close>

definition sys_exit :: "cenv \<Rightarrow> nat \<Rightarrow> proc \<Rightarrow> wstatus" where
  "sys_exit c code p =
     (if stdout_buffered p \<and> \<not> flush_ok c then Signaled 13 else Exited code)"

section \<open>The stage launcher: \<^verbatim>\<open>run_piped_command\<close>\<close>

text \<open>
  Lines 26 to 72. The first two tests redirect standard input and output when an index
  is given (greater than \<open>-1\<close>); a failed \<^verbatim>\<open>dup2\<close> returns \<open>-1\<close>. When
  \<^verbatim>\<open>run_command\<close> returns \<open>-1\<close> a message is printed to standard output (line 42),
  both designated endpoints are closed, errors only being printed, and \<open>-1\<close> is
  returned. Otherwise both are closed and a failed \<^verbatim>\<open>close\<close> is retried and sets the
  return value to \<open>1\<close>. The parameter \<^verbatim>\<open>n_pipes\<close> is not used by the function and
  \<^verbatim>\<open>pipes\<close> is the one array of the call, so both are left out; what \<^verbatim>\<open>perror\<close> prints
  to standard error and the release of the array are not part of the model.
\<close>

definition close_used :: "cenv \<Rightarrow> int \<Rightarrow> int \<Rightarrow> proc \<Rightarrow> proc" where
  "close_used c in_idx out_idx p =
     (let p1 = (if in_idx > -1 then snd (sys_close (c_close_ok c) in_idx p) else p)
      in if out_idx > -1 then snd (sys_close (c_close_ok c) out_idx p1) else p1)"

definition close_checked :: "cenv \<Rightarrow> int \<Rightarrow> int \<times> proc \<Rightarrow> int \<times> proc" where
  "close_checked c idx rp =
     (case rp of (ret_val, p) \<Rightarrow>
        if idx > -1 then
          (case sys_close (c_close_ok c) idx p of
             (True, p1) \<Rightarrow> (ret_val, p1)
           | (False, p1) \<Rightarrow> (1, snd (sys_close (c_close_ok c) idx p1)))
        else (ret_val, p))"

definition run_piped_command ::
  "cenv \<Rightarrow> strvec \<Rightarrow> int \<Rightarrow> int \<Rightarrow> proc \<Rightarrow> (int \<times> proc) flow" where
  "run_piped_command c toks in_idx out_idx p =
     (if in_idx > -1 \<and> \<not> dup2_ok c in_idx then Continue (-1, p)
      else
        let p1 = (if in_idx > -1 then p\<lparr>stdin_src := Some in_idx\<rparr> else p)
        in if out_idx > -1 \<and> \<not> dup2_ok c out_idx then Continue (-1, p1)
           else
             let p2 = (if out_idx > -1 then p1\<lparr>stdout_dst := Some out_idx\<rparr> else p1)
             in case run_command c toks of
                  TakesOver st \<Rightarrow> Terminated st p2
                | Returns r \<Rightarrow>
                    if r = -1
                    then Continue (-1, close_used c in_idx out_idx (p2\<lparr>stdout_buffered := True\<rparr>))
                    else Continue (close_checked c out_idx (close_checked c in_idx (0, p2))))"

section \<open>The orchestrator: \<^verbatim>\<open>run_pipelined_commands\<close>\<close>

subsection \<open>Designated endpoints (lines 104 to 111)\<close>

definition stage_indices :: "nat \<Rightarrow> nat \<Rightarrow> int \<times> int" where
  "stage_indices num_pipes i =
     (let in_idx = 2 * (int i - 1);
          out_idx = (2 * (int i + 1)) - 1
      in if i = 0 then (-1, out_idx)
         else if i = num_pipes then (in_idx, -1)
         else (in_idx, out_idx))"

subsection \<open>The child (lines 125 to 227)\<close>

text \<open>
  The sweep of lines 130 to 134 and 139 to 143: close the endpoints from \<open>k\<close> on, stopping
  at the first failure; the process calls \<^verbatim>\<open>exit(1)\<close> either way.
\<close>

fun close_rest :: "(int \<Rightarrow> bool) \<Rightarrow> nat list \<Rightarrow> proc \<Rightarrow> proc" where
  "close_rest ok [] p = p"
| "close_rest ok (k # ks) p =
     (case sys_close ok (int k) p of
        (False, p1) \<Rightarrow> p1
      | (True, p1) \<Rightarrow> close_rest ok ks p1)"

text \<open>Lines 127 to 146: close every endpoint but the two designated ones.\<close>

fun close_unused :: "cenv \<Rightarrow> nat \<Rightarrow> int \<Rightarrow> int \<Rightarrow> nat list \<Rightarrow> proc \<Rightarrow> proc flow" where
  "close_unused c num_pipes in_idx out_idx [] p = Continue p"
| "close_unused c num_pipes in_idx out_idx (j # js) p =
     (case (if 2 * int j \<noteq> in_idx then sys_close (c_close_ok c) (2 * int j) p else (True, p)) of
        (False, p1) \<Rightarrow>
          (let q = close_rest (c_close_ok c) [2 * j ..< 2 * num_pipes] p1
           in Terminated (sys_exit c 1 q) q)
      | (True, p1) \<Rightarrow>
          (case (if 2 * int j + 1 \<noteq> out_idx
                 then sys_close (c_close_ok c) (2 * int j + 1) p1 else (True, p1)) of
             (False, p2) \<Rightarrow>
               (let q = close_rest (c_close_ok c) [2 * j + 1 ..< 2 * num_pipes] p2
                in Terminated (sys_exit c 1 q) q)
           | (True, p2) \<Rightarrow> close_unused c num_pipes in_idx out_idx js p2))"

text \<open>
  Lines 151 to 170: strip the stages after this one. The counter is the number of rounds
  left (\<^verbatim>\<open>tokenator - i\<close>); \<open>Inl\<close> is the branch where no separator is found.
\<close>

fun trim_tokens :: "nat \<Rightarrow> int \<Rightarrow> proc \<Rightarrow> proc + int \<times> proc" where
  "trim_tokens 0 end_target_token p = Inr (end_target_token, p)"
| "trim_tokens (Suc k) end_target_token p =
     (let idx = strvec_find_last (tokens p) ''|''
      in if idx = -1 then Inl (p\<lparr>tokens := strvec_clear (tokens p)\<rparr>)
         else trim_tokens k idx (p\<lparr>tokens := strvec_take (tokens p) idx\<rparr>))"

text \<open>
  The calls of \<^verbatim>\<open>exit\<close> of lines 165, 189, 204, 222 and 226: the status the parent will
  collect, and the state the child ends in.
\<close>

definition child_exit :: "cenv \<Rightarrow> nat \<Rightarrow> proc \<Rightarrow> wstatus \<times> proc" where
  "child_exit c code p = (sys_exit c code p, p)"

definition child_main :: "cenv \<Rightarrow> nat \<Rightarrow> child \<Rightarrow> wstatus \<times> proc" where
  "child_main c num_pipes ch =
     (let i = stage ch; in_idx = c_in_idx ch; out_idx = c_out_idx ch
      in case close_unused c num_pipes in_idx out_idx [0 ..< num_pipes] (start ch) of
           Terminated st p \<Rightarrow> (st, p)
         | Continue p1 \<Rightarrow>
             (case trim_tokens (num_pipes - i) (int (length (tokens p1))) p1 of
                Inl p2 \<Rightarrow> child_exit c 1 (close_used c in_idx out_idx p2)
              | Inr (end_target_token, p2) \<Rightarrow>
                  if strvec_num_occurrences (tokens p2) ''|'' > 0 then
                    (case strvec_slice (tokens p2)
                            (strvec_find_last (tokens p2) ''|'' + 1) end_target_token of
                       None \<Rightarrow> child_exit c 1 (close_used c in_idx out_idx p2)
                     | Some command_token \<Rightarrow>
                         (case run_piped_command c command_token in_idx out_idx p2 of
                            Terminated st p3 \<Rightarrow> (st, p3)
                          | Continue (r, p3) \<Rightarrow>
                              if r = -1 then child_exit c 1 (close_used c in_idx out_idx p3)
                              else child_exit c 0 p3))
                  else
                    (case run_piped_command c (tokens p2) in_idx out_idx p2 of
                       Terminated st p3 \<Rightarrow> (st, p3)
                     | Continue (r, p3) \<Rightarrow>
                         if r = -1
                         then child_exit c 1
                                (close_used c in_idx out_idx (p3\<lparr>tokens := strvec_clear (tokens p3)\<rparr>))
                         else child_exit c 0 p3)))"

subsection \<open>The parent\<close>

text \<open>
  Lines 87 to 96 and 116 to 123: close both ends of the channels \<open>js\<close> in order, giving
  up at the first \<^verbatim>\<open>close\<close> that fails. The caller fails in either case.
\<close>

fun close_pairs :: "(int \<Rightarrow> bool) \<Rightarrow> nat list \<Rightarrow> proc \<Rightarrow> proc" where
  "close_pairs ok [] p = p"
| "close_pairs ok (j # js) p =
     (case sys_close ok (2 * int j) p of
        (False, p1) \<Rightarrow> p1
      | (True, p1) \<Rightarrow>
          (case sys_close ok (2 * int j + 1) p1 of
             (False, p2) \<Rightarrow> p2
           | (True, p2) \<Rightarrow> close_pairs ok js p2))"

text \<open>Lines 84 to 100: \<open>Inl\<close> is \<^verbatim>\<open>return -1\<close>.\<close>

fun setup_pipes :: "env \<Rightarrow> nat list \<Rightarrow> proc \<Rightarrow> proc + proc" where
  "setup_pipes e [] p = Inr p"
| "setup_pipes e (i # is) p =
     (if pipe_ok e i then setup_pipes e is (sys_pipe i p)
      else Inl (close_pairs (close_ok e) [0 ..< i] p))"

text \<open>
  Lines 102 to 228, the parent's side: \<open>Inl\<close> is the branch of a failed \<^verbatim>\<open>fork\<close>, which
  ends in \<^verbatim>\<open>exit(1)\<close>; a successful \<^verbatim>\<open>fork\<close> hands the child a copy of the parent's state.
\<close>

fun fork_loop :: "env \<Rightarrow> nat \<Rightarrow> nat list \<Rightarrow> world \<Rightarrow> world + world" where
  "fork_loop e num_pipes [] w = Inr w"
| "fork_loop e num_pipes (i # is) w =
     (case stage_indices num_pipes i of (in_idx, out_idx) \<Rightarrow>
        if \<not> fork_ok e i
        then Inl (w\<lparr>me := close_pairs (close_ok e) [0 ..< num_pipes] (me w)\<rparr>)
        else fork_loop e num_pipes is
               (w\<lparr>children := children w @
                   [\<lparr>stage = i, c_in_idx = in_idx, c_out_idx = out_idx, start = me w\<rparr>]\<rparr>))"

text \<open>Lines 231 to 238: \<open>Inl\<close> is \<^verbatim>\<open>return -1\<close>.\<close>

fun parent_close_all :: "(int \<Rightarrow> bool) \<Rightarrow> nat list \<Rightarrow> proc \<Rightarrow> proc + proc" where
  "parent_close_all ok [] p = Inr p"
| "parent_close_all ok (i # is) p =
     (case sys_close ok (int i) p of
        (False, p1) \<Rightarrow> Inl (snd (sys_close ok (int i) p1))
      | (True, p1) \<Rightarrow> parent_close_all ok is p1)"

text \<open>Lines 241 to 253.\<close>

fun wait_loop :: "env \<Rightarrow> nat list \<Rightarrow> int \<Rightarrow> world \<Rightarrow> int \<times> world" where
  "wait_loop e [] ret_val w = (ret_val, w)"
| "wait_loop e (i # is) ret_val w =
     (let status = wait_status e i;
          w1 = w\<lparr>reaped := reaped w @ [status]\<rparr>
      in case status of
           Exited child_ret_val \<Rightarrow>
             if child_ret_val \<noteq> 0 then wait_loop e is (-1) w1
             else wait_loop e is ret_val w1
         | Signaled sig \<Rightarrow> wait_loop e is (-1) w1)"

definition run_pipelined_commands :: "env \<Rightarrow> strvec \<Rightarrow> outcome \<times> world" where
  "run_pipelined_commands e toks =
     (let num_pipes = strvec_num_occurrences toks ''|'';
          w0 = \<lparr>me = init_proc toks, children = [], reaped = []\<rparr>
      in if \<not> malloc_ok e then (Returned (-1), w0)
         else
           (case setup_pipes e [0 ..< num_pipes] (me w0) of
              Inl p1 \<Rightarrow> (Returned (-1), w0\<lparr>me := p1\<rparr>)
            | Inr p1 \<Rightarrow>
                (case fork_loop e num_pipes (rev [0 ..< Suc num_pipes]) (w0\<lparr>me := p1\<rparr>) of
                   Inl w1 \<Rightarrow> (ProcExit 1, w1)
                 | Inr w1 \<Rightarrow>
                     (case parent_close_all (close_ok e) [0 ..< 2 * num_pipes] (me w1) of
                        Inl p2 \<Rightarrow> (Returned (-1), w1\<lparr>me := p2\<rparr>)
                      | Inr p2 \<Rightarrow>
                          (case wait_loop e [0 ..< Suc num_pipes] 0 (w1\<lparr>me := p2\<rparr>) of
                             (ret_val, w2) \<Rightarrow> (Returned ret_val, w2))))))"

section \<open>Auxiliary notions for the statements\<close>

text \<open>The context \<^verbatim>\<open>fork\<close> creates for stage \<open>i\<close> out of the parent state \<open>p\<close>.\<close>

definition mk_child :: "nat \<Rightarrow> proc \<Rightarrow> nat \<Rightarrow> child" where
  "mk_child num_pipes p i =
     \<lparr>stage = i, c_in_idx = fst (stage_indices num_pipes i),
      c_out_idx = snd (stage_indices num_pipes i), start = p\<rparr>"

text \<open>The endpoints of the channels \<open>is\<close>, in the order in which \<^verbatim>\<open>pipe\<close> creates them.\<close>

definition endpoints :: "nat list \<Rightarrow> int list" where
  "endpoints is = concat (map (\<lambda>i. [2 * int i, 2 * int i + 1]) is)"

text \<open>The orchestrator's world before any context is spawned.\<close>

definition world0 :: "proc \<Rightarrow> world" where
  "world0 p = \<lparr>me = p, children = [], reaped = []\<rparr>"

text \<open>
  The endpoints that the child's loop of lines 127 to 146 passes to \<^verbatim>\<open>close\<close>: the read
  end of channel \<open>j\<close> unless it is \<open>in_idx\<close>, the write end unless it is \<open>out_idx\<close>.
\<close>

definition unneeded :: "int \<Rightarrow> int \<Rightarrow> nat list \<Rightarrow> int list" where
  "unneeded in_idx out_idx js =
     concat (map (\<lambda>j. (if 2 * int j \<noteq> in_idx then [2 * int j] else []) @
                       (if 2 * int j + 1 \<noteq> out_idx then [2 * int j + 1] else [])) js)"

text \<open>
  Concrete environments, to run the code on explicit inputs: every call succeeds and
  every context exits with status 0; the second context collected exits with status 3;
  the parent's \<^verbatim>\<open>close\<close> of endpoint 0 fails; the \<^verbatim>\<open>fork\<close> for stage 0 fails; the third
  \<^verbatim>\<open>pipe\<close> fails, alone or together with the \<^verbatim>\<open>close\<close> of endpoint 0.
\<close>

definition env_ok :: env where
  "env_ok = \<lparr>malloc_ok = True, pipe_ok = (\<lambda>i. True), fork_ok = (\<lambda>i. True),
             close_ok = (\<lambda>k. True), wait_status = (\<lambda>k. Exited 0)\<rparr>"

definition env_stage_fails :: env where
  "env_stage_fails = env_ok\<lparr>wait_status := (\<lambda>k. if k = 0 then Exited 0 else Exited 3)\<rparr>"

definition env_close0_fails :: env where
  "env_close0_fails = env_ok\<lparr>close_ok := (\<lambda>k. k \<noteq> 0)\<rparr>"

definition env_fork0_fails :: env where
  "env_fork0_fails = env_ok\<lparr>fork_ok := (\<lambda>i. i \<noteq> 0)\<rparr>"

definition env_pipe2_fails :: env where
  "env_pipe2_fails = env_ok\<lparr>pipe_ok := (\<lambda>i. i \<noteq> 2)\<rparr>"

definition env_pipe2_close0_fail :: env where
  "env_pipe2_close0_fail = env_ok\<lparr>pipe_ok := (\<lambda>i. i \<noteq> 2), close_ok := (\<lambda>k. k \<noteq> 0)\<rparr>"

text \<open>
  Environments of one child: every call succeeds and \<^verbatim>\<open>run_command\<close> comes back with 0;
  the same with a failing \<^verbatim>\<open>close\<close> of endpoint 0; one where \<^verbatim>\<open>dup2\<close> fails while
  the external program, if launched, would exit with status 0; and one where the launch
  fails and the message of line 42 is flushed into a pipe without reader.
\<close>

definition cenv_ok :: cenv where
  "cenv_ok = \<lparr>c_close_ok = (\<lambda>k. True), dup2_ok = (\<lambda>k. True),
              run_command = (\<lambda>t. Returns 0), flush_ok = True\<rparr>"

definition cenv_close0_fails :: cenv where
  "cenv_close0_fails = cenv_ok\<lparr>c_close_ok := (\<lambda>k. k \<noteq> 0)\<rparr>"

definition cenv_dup2_fails :: cenv where
  "cenv_dup2_fails = \<lparr>c_close_ok = (\<lambda>k. True), dup2_ok = (\<lambda>k. False),
                      run_command = (\<lambda>t. TakesOver (Exited 0)), flush_ok = True\<rparr>"

definition cenv_launch_fails :: cenv where
  "cenv_launch_fails = \<lparr>c_close_ok = (\<lambda>k. True), dup2_ok = (\<lambda>k. True),
                        run_command = (\<lambda>t. Returns (-1)), flush_ok = False\<rparr>"

text \<open>
  The pipeline \<open>a | b\<close>: the orchestrator's state when it forks, with both ends of channel
  0 open, and the two contexts; and the single context of the pipeline \<open>ls\<close>.
\<close>

definition forked_ab :: proc where
  "forked_ab = \<lparr>tokens = [''a'', ''|'', ''b''], fds = [0, 1], stdin_src = None,
                 stdout_dst = None, stdout_buffered = False\<rparr>"

definition stage1_ab :: child where
  "stage1_ab = \<lparr>stage = 1, c_in_idx = 0, c_out_idx = -1, start = forked_ab\<rparr>"

definition stage0_ab :: child where
  "stage0_ab = \<lparr>stage = 0, c_in_idx = -1, c_out_idx = 1, start = forked_ab\<rparr>"

definition stage0_ls :: child where
  "stage0_ls = \<lparr>stage = 0, c_in_idx = -1, c_out_idx = 1, start = init_proc [''ls'']\<rparr>"

section \<open>Properties of the loops\<close>

subsection \<open>Index lists\<close>

lemma upt_split:
  "k < n \<Longrightarrow> [0 ..< n] = [0 ..< k] @ k # [Suc k ..< n]"
proof -
  assume kn: "k < n"
  have "[0 ..< k + (n - k)] = [0 ..< k] @ [k ..< k + (n - k)]"
    by (rule upt_add_eq_append) simp
  with kn have "[0 ..< n] = [0 ..< k] @ [k ..< n]"
    by simp
  with kn show ?thesis
    by (simp add: upt_conv_Cons)
qed

lemma rev_upt_split:
  "k \<le> n \<Longrightarrow> rev [0 ..< Suc n] = rev [Suc k ..< Suc n] @ k # rev [0 ..< k]"
  using upt_split[of k "Suc n"] by simp

lemma endpoints_upt: "endpoints [0 ..< n] = map int [0 ..< 2 * n]"
  by (induction n) (auto simp: endpoints_def)

lemma endpoints_Cons: "endpoints (j # js) = 2 * int j # (2 * int j + 1) # endpoints js"
  by (simp add: endpoints_def)

lemma set_endpoints: "set (endpoints js) = (\<Union>j \<in> set js. {2 * int j, 2 * int j + 1})"
  by (induction js) (auto simp: endpoints_def)

subsection \<open>Closing endpoints\<close>

lemma sys_close_tokens: "tokens (snd (sys_close ok k p)) = tokens p"
  by (simp add: sys_close_def)

lemma close_pairs_tokens: "tokens (close_pairs ok js p) = tokens p"
  by (induction js arbitrary: p) (auto simp: sys_close_def)

lemma close_pairs_dropWhile:
  "distinct js \<Longrightarrow> fds p = endpoints js \<Longrightarrow>
   fds (close_pairs ok js p) = dropWhile ok (endpoints js)"
proof (induction js arbitrary: p)
  case Nil
  then show ?case by (simp add: endpoints_def)
next
  case (Cons j js)
  have notin: "2 * int j \<notin> set (endpoints js)" "2 * int j + 1 \<notin> set (endpoints js)"
    using Cons.prems(1) by (auto simp: set_endpoints) presburger+
  show ?case
  proof (cases "ok (2 * int j)")
    case False
    then show ?thesis using Cons.prems(2) by (simp add: sys_close_def endpoints_Cons)
  next
    case ok0: True
    show ?thesis
    proof (cases "ok (2 * int j + 1)")
      case False
      with ok0 show ?thesis
        using Cons.prems(2) notin by (simp add: sys_close_def endpoints_Cons)
    next
      case True
      let ?p2 = "p\<lparr>fds := endpoints js\<rparr>"
      have "close_pairs ok (j # js) p = close_pairs ok js ?p2"
        using ok0 True Cons.prems(2) notin by (simp add: sys_close_def endpoints_Cons)
      moreover have "fds (close_pairs ok js ?p2) = dropWhile ok (endpoints js)"
        using Cons.prems(1) by (intro Cons.IH) simp_all
      ultimately show ?thesis using ok0 True by (simp add: endpoints_Cons)
    qed
  qed
qed

lemma parent_close_all_ok:
  "(\<And>i. i \<in> set is \<Longrightarrow> ok (int i)) \<Longrightarrow>
   parent_close_all ok is p = Inr (p\<lparr>fds := filter (\<lambda>k. k \<notin> int ` set is) (fds p)\<rparr>)"
proof (induction "is" arbitrary: p)
  case Nil
  then show ?case by simp
next
  case (Cons i "is")
  have "parent_close_all ok (i # is) p = parent_close_all ok is (p\<lparr>fds := removeAll (int i) (fds p)\<rparr>)"
    using Cons.prems[of i] by (simp add: sys_close_def)
  also have "\<dots> = Inr (p\<lparr>fds := filter (\<lambda>k. k \<notin> int ` set (i # is)) (fds p)\<rparr>)"
  proof -
    have "filter (\<lambda>k. k \<notin> int ` set is) (removeAll (int i) (fds p)) =
          filter (\<lambda>k. k \<notin> int ` set (i # is)) (fds p)"
      by (induction "fds p" arbitrary: p) (auto simp: removeAll_filter_not_eq intro!: filter_cong)
    then show ?thesis using Cons.prems by (subst Cons.IH) auto
  qed
  finally show ?case .
qed

lemma parent_close_all_Inr:
  "parent_close_all ok is p = Inr q \<Longrightarrow> (\<forall>i \<in> set is. ok (int i))"
  by (induction "is" arbitrary: p) (auto simp: sys_close_def split: if_splits)

lemma parent_close_all_Inl:
  "parent_close_all ok is p = Inl q \<Longrightarrow> (\<exists>i \<in> set is. \<not> ok (int i)) \<and> tokens q = tokens p"
  by (induction "is" arbitrary: p) (auto simp: sys_close_def split: if_splits)

subsection \<open>Creating the channels\<close>

lemma setup_pipes_tokens:
  "tokens (case setup_pipes e is p of Inl q \<Rightarrow> q | Inr q \<Rightarrow> q) = tokens p"
  by (induction "is" arbitrary: p) (auto simp: sys_pipe_def close_pairs_tokens)

lemma setup_pipes_all_ok:
  "(\<And>i. i \<in> set is \<Longrightarrow> pipe_ok e i) \<Longrightarrow>
   setup_pipes e is p = Inr (p\<lparr>fds := fds p @ endpoints is\<rparr>)"
  by (induction "is" arbitrary: p) (auto simp: sys_pipe_def endpoints_def)

lemma setup_pipes_Inr:
  "setup_pipes e is p = Inr q \<Longrightarrow>
   (\<forall>i \<in> set is. pipe_ok e i) \<and> q = p\<lparr>fds := fds p @ endpoints is\<rparr>"
proof (induction "is" arbitrary: p)
  case Nil
  then show ?case by (simp add: endpoints_def)
next
  case (Cons i "is")
  from Cons.prems have ok: "pipe_ok e i" and rest: "setup_pipes e is (sys_pipe i p) = Inr q"
    by (auto split: if_splits)
  from Cons.IH[OF rest] ok show ?case
    by (simp add: sys_pipe_def endpoints_def)
qed

lemma setup_pipes_Inl:
  "setup_pipes e is p = Inl q \<Longrightarrow> \<exists>i \<in> set is. \<not> pipe_ok e i"
  by (induction "is" arbitrary: p) (auto split: if_splits)

lemma setup_pipes_fail_at:
  "(\<And>i. i \<in> set as \<Longrightarrow> pipe_ok e i) \<Longrightarrow> \<not> pipe_ok e k \<Longrightarrow>
   setup_pipes e (as @ k # bs) p =
     Inl (close_pairs (close_ok e) [0 ..< k] (p\<lparr>fds := fds p @ endpoints as\<rparr>))"
  by (induction as arbitrary: p) (auto simp: sys_pipe_def endpoints_def)

subsection \<open>Spawning\<close>

lemma stage_mk_child: "map (stage \<circ> mk_child n q) is = is"
  by (induction "is") (simp_all add: mk_child_def)

lemma fork_loop_all_ok:
  "(\<And>i. i \<in> set is \<Longrightarrow> fork_ok e i) \<Longrightarrow>
   fork_loop e n is w = Inr (w\<lparr>children := children w @ map (mk_child n (me w)) is\<rparr>)"
  by (induction "is" arbitrary: w) (auto simp: mk_child_def split: prod.splits)

lemma fork_loop_Inr:
  "fork_loop e n is w = Inr w' \<Longrightarrow>
   (\<forall>i \<in> set is. fork_ok e i) \<and> w' = w\<lparr>children := children w @ map (mk_child n (me w)) is\<rparr>"
proof (induction "is" arbitrary: w)
  case Nil
  then show ?case by simp
next
  case (Cons i "is")
  let ?w1 = "w\<lparr>children := children w @ [mk_child n (me w) i]\<rparr>"
  from Cons.prems have ok: "fork_ok e i" and rest: "fork_loop e n is ?w1 = Inr w'"
    by (auto simp: mk_child_def split: prod.splits if_splits)
  from Cons.IH[OF rest] ok show ?case by simp
qed

lemma fork_loop_Inl:
  "fork_loop e n is w = Inl w' \<Longrightarrow>
   (\<exists>as k bs. is = as @ k # bs \<and> (\<forall>i \<in> set as. fork_ok e i) \<and> \<not> fork_ok e k \<and>
      w' = w\<lparr>me := close_pairs (close_ok e) [0 ..< n] (me w),
              children := children w @ map (mk_child n (me w)) as\<rparr>)"
proof (induction "is" arbitrary: w)
  case Nil
  then show ?case by simp
next
  case (Cons i "is")
  show ?case
  proof (cases "fork_ok e i")
    case False
    with Cons.prems have "w' = w\<lparr>me := close_pairs (close_ok e) [0 ..< n] (me w)\<rparr>"
      by (auto split: prod.splits)
    with False show ?thesis by (intro exI[of _ "[]"] exI[of _ i] exI[of _ "is"]) simp
  next
    case True
    let ?w1 = "w\<lparr>children := children w @ [mk_child n (me w) i]\<rparr>"
    from True Cons.prems have rest: "fork_loop e n is ?w1 = Inl w'"
      by (auto simp: mk_child_def split: prod.splits)
    from Cons.IH[OF rest] obtain as k bs where
      "is = as @ k # bs" "\<forall>i \<in> set as. fork_ok e i" "\<not> fork_ok e k"
      "w' = ?w1\<lparr>me := close_pairs (close_ok e) [0 ..< n] (me ?w1),
              children := children ?w1 @ map (mk_child n (me ?w1)) as\<rparr>"
      by blast
    with True show ?thesis
      by (intro exI[of _ "i # as"] exI[of _ k] exI[of _ bs]) simp
  qed
qed

lemma fork_loop_fail_at:
  "(\<And>i. i \<in> set as \<Longrightarrow> fork_ok e i) \<Longrightarrow> \<not> fork_ok e k \<Longrightarrow>
   fork_loop e n (as @ k # bs) w =
     Inl (w\<lparr>me := close_pairs (close_ok e) [0 ..< n] (me w),
            children := children w @ map (mk_child n (me w)) as\<rparr>)"
  by (induction as arbitrary: w) (auto simp: mk_child_def split: prod.splits)

subsection \<open>Collecting the statuses\<close>

lemma wait_loop_world:
  "snd (wait_loop e is r w) = w\<lparr>reaped := reaped w @ map (wait_status e) is\<rparr>"
  by (induction "is" arbitrary: r w) (auto simp: Let_def split: wstatus.splits)

lemma wait_loop_result:
  "fst (wait_loop e is r w) =
     (if r = 0 \<and> (\<forall>i \<in> set is. wait_status e i = Exited 0) then 0 else -1)" if "r = 0 \<or> r = -1"
  using that by (induction "is" arbitrary: r w) (auto simp: Let_def split: wstatus.splits)

subsection \<open>The five paths through the orchestrator\<close>

text \<open>
  A call ends in one of five ways: \<^verbatim>\<open>malloc\<close> fails; a \<^verbatim>\<open>pipe\<close> fails; a \<^verbatim>\<open>fork\<close>
  fails; a \<^verbatim>\<open>close\<close> of the parent's sweep fails; or the wait loop runs.
\<close>

lemma run_paths [consumes 0, case_names no_memory no_pipe no_fork no_close waited]:
  fixes e toks
  defines "n \<equiv> strvec_num_occurrences toks ''|''"
  obtains
    "\<not> malloc_ok e"
    "run_pipelined_commands e toks = (Returned (-1), world0 (init_proc toks))"
  | p1 where "malloc_ok e"
    "setup_pipes e [0 ..< n] (init_proc toks) = Inl p1"
    "run_pipelined_commands e toks = (Returned (-1), world0 p1)"
  | p1 w1 where "malloc_ok e"
    "setup_pipes e [0 ..< n] (init_proc toks) = Inr p1"
    "fork_loop e n (rev [0 ..< Suc n]) (world0 p1) = Inl w1"
    "run_pipelined_commands e toks = (ProcExit 1, w1)"
  | p1 w1 p2 where "malloc_ok e"
    "setup_pipes e [0 ..< n] (init_proc toks) = Inr p1"
    "fork_loop e n (rev [0 ..< Suc n]) (world0 p1) = Inr w1"
    "parent_close_all (close_ok e) [0 ..< 2 * n] (me w1) = Inl p2"
    "run_pipelined_commands e toks = (Returned (-1), w1\<lparr>me := p2\<rparr>)"
  | p1 w1 p2 where "malloc_ok e"
    "setup_pipes e [0 ..< n] (init_proc toks) = Inr p1"
    "fork_loop e n (rev [0 ..< Suc n]) (world0 p1) = Inr w1"
    "parent_close_all (close_ok e) [0 ..< 2 * n] (me w1) = Inr p2"
    "run_pipelined_commands e toks =
       (Returned (fst (wait_loop e [0 ..< Suc n] 0 (w1\<lparr>me := p2\<rparr>))),
        snd (wait_loop e [0 ..< Suc n] 0 (w1\<lparr>me := p2\<rparr>)))"
proof (cases "malloc_ok e")
  case False
  then show ?thesis
    using that(1) by (simp add: run_pipelined_commands_def world0_def)
next
  case m: True
  show ?thesis
  proof (cases "setup_pipes e [0 ..< n] (init_proc toks)")
    case (Inl p1)
    with m show ?thesis
      using that(2)[of p1] by (simp add: run_pipelined_commands_def world0_def n_def del: upt_Suc)
  next
    case sp: (Inr p1)
    show ?thesis
    proof (cases "fork_loop e n (rev [0 ..< Suc n]) (world0 p1)")
      case (Inl w1)
      with m sp show ?thesis
        using that(3)[of p1 w1] by (simp add: run_pipelined_commands_def world0_def n_def del: upt_Suc)
    next
      case fl: (Inr w1)
      show ?thesis
      proof (cases "parent_close_all (close_ok e) [0 ..< 2 * n] (me w1)")
        case (Inl p2)
        with m sp fl show ?thesis
          using that(4)[of p1 w1 p2] by (simp add: run_pipelined_commands_def world0_def n_def del: upt_Suc)
      next
        case (Inr p2)
        with m sp fl show ?thesis
          using that(5)[of p1 w1 p2]
          by (simp add: run_pipelined_commands_def world0_def n_def split: prod.splits del: upt_Suc)
      qed
    qed
  qed
qed

lemma run_children_form:
  assumes "ch \<in> set (children (snd (run_pipelined_commands e toks)))"
  shows "stage ch \<le> strvec_num_occurrences toks ''|'' \<and>
         ch = mk_child (strvec_num_occurrences toks ''|'')
                ((init_proc toks)\<lparr>fds := map int [0 ..< 2 * strvec_num_occurrences toks ''|'']\<rparr>)
                (stage ch)"
proof -
  let ?n = "strvec_num_occurrences toks ''|''"
  let ?p = "(init_proc toks)\<lparr>fds := map int [0 ..< 2 * ?n]\<rparr>"
  have p1: "p1 = ?p" if "setup_pipes e [0 ..< ?n] (init_proc toks) = Inr p1" for p1
    using setup_pipes_Inr[OF that] by (simp add: endpoints_upt init_proc_def)
  have mem: "stage c \<le> ?n \<and> c = mk_child ?n ?p (stage c)"
    if "c \<in> set (map (mk_child ?n ?p) is)" "set is \<subseteq> set (rev [0 ..< Suc ?n])" for c "is"
    using that by (auto simp: mk_child_def simp del: upt_Suc)
  show ?thesis
  proof (cases e toks rule: run_paths)
    case no_memory
    with assms show ?thesis by (simp add: world0_def)
  next
    case (no_pipe p1)
    with assms show ?thesis by (simp add: world0_def)
  next
    case (no_fork p1 w1)
    from fork_loop_Inl[OF no_fork(3)] obtain as k bs where
      split: "rev [0 ..< Suc ?n] = as @ k # bs" and
      w1: "children w1 = map (mk_child ?n p1) as"
      by (auto simp: world0_def simp del: upt_Suc)
    from split have "set as \<subseteq> set (rev [0 ..< Suc ?n])"
      by (metis set_append sup_ge1)
    with assms no_fork(4) w1 p1[OF no_fork(2)] show ?thesis
      by (intro mem[of ch as]) simp_all
  next
    case (no_close p1 w1 p2)
    from fork_loop_Inr[OF no_close(3)]
    have "children w1 = map (mk_child ?n p1) (rev [0 ..< Suc ?n])"
      by (simp add: world0_def del: upt_Suc)
    with assms no_close(5) p1[OF no_close(2)] show ?thesis
      by (intro mem[of ch "rev [0 ..< Suc ?n]"]) simp_all
  next
    case (waited p1 w1 p2)
    from fork_loop_Inr[OF waited(3)]
    have "children w1 = map (mk_child ?n p1) (rev [0 ..< Suc ?n])"
      by (simp add: world0_def del: upt_Suc)
    with assms waited(5) p1[OF waited(2)] show ?thesis
      by (intro mem[of ch "rev [0 ..< Suc ?n]"]) (simp_all add: wait_loop_world)
  qed
qed

subsection \<open>The child's cleanup loop\<close>

lemma close_unused_Continue:
  "close_unused c n in_idx out_idx js p = Continue q \<Longrightarrow>
   (\<forall>k \<in> set (unneeded in_idx out_idx js). c_close_ok c k) \<and>
   q = p\<lparr>fds := filter (\<lambda>k. k \<notin> set (unneeded in_idx out_idx js)) (fds p)\<rparr>"
proof (induction js arbitrary: p)
  case Nil
  then show ?case by (simp add: unneeded_def)
next
  case (Cons j js)
  let ?a = "2 * int j" and ?b = "2 * int j + 1"
  let ?p1 = "if ?a \<noteq> in_idx then p\<lparr>fds := removeAll ?a (fds p)\<rparr> else p"
  let ?p2 = "if ?b \<noteq> out_idx then ?p1\<lparr>fds := removeAll ?b (fds ?p1)\<rparr> else ?p1"
  from Cons.prems have a: "?a \<noteq> in_idx \<longrightarrow> c_close_ok c ?a"
    by (auto simp: sys_close_def Let_def split: if_splits)
  from Cons.prems a have b: "?b \<noteq> out_idx \<longrightarrow> c_close_ok c ?b"
    by (auto simp: sys_close_def Let_def split: if_splits)
  from Cons.prems a b have rest: "close_unused c n in_idx out_idx js ?p2 = Continue q"
    by (auto simp: sys_close_def split: if_splits)
  from Cons.IH[OF rest] have ok: "\<forall>k \<in> set (unneeded in_idx out_idx js). c_close_ok c k"
    and q: "q = ?p2\<lparr>fds := filter (\<lambda>k. k \<notin> set (unneeded in_idx out_idx js)) (fds ?p2)\<rparr>"
    by blast+
  have u: "set (unneeded in_idx out_idx (j # js)) =
      (if ?a \<noteq> in_idx then {?a} else {}) \<union> (if ?b \<noteq> out_idx then {?b} else {}) \<union>
      set (unneeded in_idx out_idx js)"
    by (auto simp: unneeded_def)
  have "fds q = filter (\<lambda>k. k \<notin> set (unneeded in_idx out_idx (j # js))) (fds p)"
    unfolding q u by (auto simp: removeAll_filter_not_eq intro!: filter_cong)
  moreover have "q = p\<lparr>fds := fds q\<rparr>"
    unfolding q by simp
  ultimately show ?case using a b ok u by auto
qed

lemma close_rest_buffered: "stdout_buffered (close_rest ok ks p) = stdout_buffered p"
  by (induction ks arbitrary: p) (auto simp: sys_close_def)

lemma close_unused_Terminated:
  "close_unused c n in_idx out_idx js p = Terminated st q \<Longrightarrow> \<not> stdout_buffered p \<Longrightarrow>
   st = Exited 1 \<and> (\<exists>k \<in> set (unneeded in_idx out_idx js). \<not> c_close_ok c k)"
proof (induction js arbitrary: p)
  case Nil
  then show ?case by simp
next
  case (Cons j js)
  let ?a = "2 * int j" and ?b = "2 * int j + 1"
  have u: "set (unneeded in_idx out_idx (j # js)) =
      (if ?a \<noteq> in_idx then {?a} else {}) \<union> (if ?b \<noteq> out_idx then {?b} else {}) \<union>
      set (unneeded in_idx out_idx js)"
    by (auto simp: unneeded_def)
  show ?case
  proof (cases "?a \<noteq> in_idx \<and> \<not> c_close_ok c ?a")
    case True
    with Cons.prems show ?thesis
      unfolding u by (auto simp: sys_close_def sys_exit_def close_rest_buffered Let_def)
  next
    case a: False
    let ?p1 = "if ?a \<noteq> in_idx then p\<lparr>fds := removeAll ?a (fds p)\<rparr> else p"
    show ?thesis
    proof (cases "?b \<noteq> out_idx \<and> \<not> c_close_ok c ?b")
      case True
      with a Cons.prems show ?thesis
        unfolding u
        by (auto simp: sys_close_def sys_exit_def close_rest_buffered Let_def split: if_splits)
    next
      case b: False
      let ?p2 = "if ?b \<noteq> out_idx then ?p1\<lparr>fds := removeAll ?b (fds ?p1)\<rparr> else ?p1"
      from a b Cons.prems(1) have rest: "close_unused c n in_idx out_idx js ?p2 = Terminated st q"
        by (auto simp: sys_close_def split: if_splits)
      have "\<not> stdout_buffered ?p2"
        using Cons.prems(2) by simp
      from Cons.IH[OF rest this] show ?thesis
        unfolding u by auto
    qed
  qed
qed

lemma set_unneeded:
  assumes "in_idx = -1 \<or> even in_idx" and "odd out_idx"
  shows "set (unneeded in_idx out_idx [0 ..< n]) =
           {k. 0 \<le> k \<and> k < 2 * int n \<and> k \<noteq> in_idx \<and> k \<noteq> out_idx}"
proof (intro set_eqI iffI)
  fix k
  assume "k \<in> set (unneeded in_idx out_idx [0 ..< n])"
  then obtain j where "j < n" "k = 2 * int j \<and> k \<noteq> in_idx \<or> k = 2 * int j + 1 \<and> k \<noteq> out_idx"
    by (auto simp: unneeded_def split: if_splits)
  with assms show "k \<in> {k. 0 \<le> k \<and> k < 2 * int n \<and> k \<noteq> in_idx \<and> k \<noteq> out_idx}"
    by auto
next
  fix k
  assume "k \<in> {k. 0 \<le> k \<and> k < 2 * int n \<and> k \<noteq> in_idx \<and> k \<noteq> out_idx}"
  then have k: "0 \<le> k" "k < 2 * int n" "k \<noteq> in_idx" "k \<noteq> out_idx"
    by simp_all
  define j where "j = nat (k div 2)"
  from k have j: "j < n" and kj: "k = 2 * int j \<or> k = 2 * int j + 1"
    unfolding j_def by auto
  from kj k j show "k \<in> set (unneeded in_idx out_idx [0 ..< n])"
    by (auto simp: unneeded_def intro!: bexI[of _ j])
qed

lemma stage_indices_parity:
  "(fst (stage_indices n i) = -1 \<or> even (fst (stage_indices n i))) \<and>
   odd (snd (stage_indices n i))"
  by (simp add: stage_indices_def Let_def)

subsection \<open>The flush at exit\<close>

text \<open>
  Stage 0 of \<open>a | b\<close> writes into channel 0. When its launch fails and the message of
  line 42 cannot be flushed, the context ends by signal 13, not with exit status 1.
\<close>

lemma child_main_launch_failure_flush:
  "fst (child_main cenv_launch_fails 1 stage0_ab) = Signaled 13
   \<and> fst (child_main (cenv_launch_fails\<lparr>flush_ok := True\<rparr>) 1 stage0_ab) = Exited 1"
  by code_simp

section \<open>The claims\<close>

subsection \<open>C1: a pipeline without separator\<close>

text \<open>
  Claim C1 says that for a sequence without separator the single stage is designated no
  endpoint at all. The code is run on the sequence \<open>[ls]\<close>: there is no separator and
  one context is spawned, with \<open>in_idx = -1\<close> but \<open>out_idx = 1\<close>, although the process
  holds no endpoint. The test of line 109 is the \<^verbatim>\<open>else\<close> branch of the test of line
  107, so it is skipped for the stage that is first and last at once. The stage
  launcher then redirects standard output to index 1 when \<^verbatim>\<open>dup2\<close> accepts it, and the
  context exits with status 1 without launching the program when \<^verbatim>\<open>dup2\<close> refuses.
\<close>

theorem C1_no_pipe_output_index:
  "strvec_num_occurrences [''ls''] ''|'' = 0
   \<and> children (snd (run_pipelined_commands env_ok [''ls''])) = [stage0_ls]
   \<and> c_in_idx stage0_ls = -1
   \<and> c_out_idx stage0_ls = 1
   \<and> fds (start stage0_ls) = []
   \<and> stdout_dst (snd (child_main cenv_ok 0 stage0_ls)) = Some 1
   \<and> fst (child_main cenv_dup2_fails 0 stage0_ls) = Exited 1"
  by code_simp

subsection \<open>C2: reduction of the stage outcomes\<close>

text \<open>
  Claim C2. The call collects the statuses of all \<open>N + 1\<close> contexts exactly when
  \<^verbatim>\<open>malloc\<close>, every \<^verbatim>\<open>pipe\<close>, every \<^verbatim>\<open>fork\<close> and every \<^verbatim>\<open>close\<close> of the parent succeed.
  It has then spawned \<open>N + 1\<close> contexts, the statuses collected are the ones that the
  \<open>N + 1\<close> calls of \<^verbatim>\<open>wait\<close> delivered, in that order, and the call returns \<open>0\<close>
  (success) if every one of them is a normal exit with status \<open>0\<close>, and \<open>-1\<close> otherwise,
  that is as soon as one context exited with a non-zero status or ended abnormally.
\<close>

theorem C2_result:
  assumes run: "run_pipelined_commands e toks = (res, w)"
  shows "(length (reaped w) = Suc (strvec_num_occurrences toks ''|'') \<longleftrightarrow>
            malloc_ok e \<and>
            (\<forall>i < strvec_num_occurrences toks ''|''. pipe_ok e i) \<and>
            (\<forall>i \<le> strvec_num_occurrences toks ''|''. fork_ok e i) \<and>
            (\<forall>k < 2 * strvec_num_occurrences toks ''|''. close_ok e (int k))) \<and>
         (length (reaped w) = Suc (strvec_num_occurrences toks ''|'') \<longrightarrow>
            reaped w = map (wait_status e) [0 ..< Suc (strvec_num_occurrences toks ''|'')] \<and>
            length (children w) = Suc (strvec_num_occurrences toks ''|'') \<and>
            res = Returned (if \<forall>k \<le> strvec_num_occurrences toks ''|''. wait_status e k = Exited 0
                            then 0 else -1))"
proof (cases e toks rule: run_paths)
  case no_memory
  with run show ?thesis by (auto simp: world0_def)
next
  case (no_pipe p1)
  from setup_pipes_Inl[OF no_pipe(2)]
  have "\<not> (\<forall>i < strvec_num_occurrences toks ''|''. pipe_ok e i)"
    by auto
  with no_pipe(3) run show ?thesis by (auto simp: world0_def)
next
  case (no_fork p1 w1)
  let ?n = "strvec_num_occurrences toks ''|''"
  from fork_loop_Inl[OF no_fork(3)] obtain as k bs where
    split: "rev [0 ..< Suc ?n] = as @ k # bs" and k: "\<not> fork_ok e k" and r: "reaped w1 = []"
    by (auto simp: world0_def simp del: upt_Suc)
  from split have "k \<in> set (rev [0 ..< Suc ?n])"
    by (metis in_set_conv_decomp)
  then have "k \<le> ?n" by auto
  with k have "\<not> (\<forall>i \<le> ?n. fork_ok e i)" by blast
  with no_fork(4) run r show ?thesis by auto
next
  case (no_close p1 w1 p2)
  from fork_loop_Inr[OF no_close(3)] have r: "reaped w1 = []"
    by (simp add: world0_def)
  from parent_close_all_Inl[OF no_close(4)]
  have "\<not> (\<forall>k < 2 * strvec_num_occurrences toks ''|''. close_ok e (int k))"
    by auto
  with no_close(5) run r show ?thesis by auto
next
  case (waited p1 w1 p2)
  let ?n = "strvec_num_occurrences toks ''|''"
  let ?wl = "wait_loop e [0 ..< Suc ?n] 0 (w1\<lparr>me := p2\<rparr>)"
  from waited(5) run have res: "res = Returned (fst ?wl)" and w: "w = snd ?wl"
    by simp_all
  from setup_pipes_Inr[OF waited(2)] have pipes: "\<forall>i < ?n. pipe_ok e i"
    by simp
  from fork_loop_Inr[OF waited(3)] have forks: "\<forall>i \<le> ?n. fork_ok e i"
    and r1: "reaped w1 = []"
    and c1: "length (children w1) = Suc ?n"
    by (auto simp: world0_def simp del: upt_Suc)
  from parent_close_all_Inr[OF waited(4)] have closes: "\<forall>k < 2 * ?n. close_ok e (int k)"
    by auto
  have rw: "reaped w = map (wait_status e) [0 ..< Suc ?n]"
    unfolding w wait_loop_world using r1 by simp
  have cw: "length (children w) = Suc ?n"
    unfolding w wait_loop_world using c1 by simp
  have "fst ?wl = (if \<forall>i \<in> set [0 ..< Suc ?n]. wait_status e i = Exited 0 then 0 else -1)"
    by (subst wait_loop_result) simp_all
  also have "(\<forall>i \<in> set [0 ..< Suc ?n]. wait_status e i = Exited 0) \<longleftrightarrow>
             (\<forall>k \<le> ?n. wait_status e k = Exited 0)"
    by (auto simp: less_Suc_eq_le)
  finally have "res = Returned (if \<forall>k \<le> ?n. wait_status e k = Exited 0 then 0 else -1)"
    using res by simp
  moreover have "length (reaped w) = Suc ?n"
    unfolding rw by simp
  ultimately show ?thesis
    using waited(1) pipes forks closes rw cw by simp
qed

text \<open>
  For \<open>a | b\<close> every call of the parent succeeds; the first context collected exited with
  status 0 and the second with status 3, and the call returns \<open>-1\<close>.
\<close>

theorem C2_result_witness:
  "length (reaped (snd (run_pipelined_commands env_stage_fails [''a'', ''|'', ''b''])))
     = Suc (strvec_num_occurrences [''a'', ''|'', ''b''] ''|'')
   \<and> reaped (snd (run_pipelined_commands env_stage_fails [''a'', ''|'', ''b'']))
       = [Exited 0, Exited 3]
   \<and> fst (run_pipelined_commands env_stage_fails [''a'', ''|'', ''b'']) = Returned (-1)"
proof -
  let ?r = "run_pipelined_commands env_stage_fails [''a'', ''|'', ''b'']"
  have n: "strvec_num_occurrences [''a'', ''|'', ''b''] ''|'' = 1"
    by code_simp
  have m: "map (wait_status env_stage_fails) [0 ..< Suc 1] = [Exited 0, Exited 3]"
    by code_simp
  have s: "\<not> (\<forall>k \<le> 1. wait_status env_stage_fails k = Exited 0)"
    by (auto simp: env_stage_fails_def intro!: exI[of _ 1])
  note inst = C2_result[OF surjective_pairing, of env_stage_fails "[''a'', ''|'', ''b'']", unfolded n]
  have len: "length (reaped (snd ?r)) = Suc 1"
    using inst by (simp add: env_stage_fails_def env_ok_def)
  with inst have "reaped (snd ?r) = map (wait_status env_stage_fails) [0 ..< Suc 1]"
    and "fst ?r = Returned (if \<forall>k \<le> 1. wait_status env_stage_fails k = Exited 0 then 0 else -1)"
    by blast+
  with len s show ?thesis
    unfolding n m by simp
qed

subsection \<open>C3: returning before the contexts are collected\<close>

text \<open>
  Claim C3 as stated fails: for \<open>a | b\<close>, when the parent's \<^verbatim>\<open>close\<close> of endpoint 0
  fails, the call returns \<open>-1\<close> from the sweep of lines 231 to 238 with two contexts
  spawned and none collected.
\<close>

theorem C3_counterexample:
  "fst (run_pipelined_commands env_close0_fails [''a'', ''|'', ''b'']) = Returned (-1)
   \<and> length (children (snd (run_pipelined_commands env_close0_fails [''a'', ''|'', ''b'']))) = 2
   \<and> reaped (snd (run_pipelined_commands env_close0_fails [''a'', ''|'', ''b''])) = []"
  by code_simp

text \<open>
  Claim C3, amended. When the call returns a value after spawning a context, all
  \<open>N + 1\<close> contexts were spawned, and: if every \<^verbatim>\<open>close\<close> of the parent's sweep succeeds,
  as many statuses were collected as contexts were spawned; if one of them fails, the
  value is \<open>-1\<close> and no status was collected.
\<close>

theorem C3_waits_unless_close_fails:
  assumes run: "run_pipelined_commands e toks = (Returned r, w)"
    and spawned: "children w \<noteq> []"
  shows "length (children w) = Suc (strvec_num_occurrences toks ''|'') \<and>
         (if \<forall>k < 2 * strvec_num_occurrences toks ''|''. close_ok e (int k)
          then length (reaped w) = length (children w)
          else r = -1 \<and> reaped w = [])"
proof (cases e toks rule: run_paths)
  case no_memory
  with run spawned show ?thesis by (auto simp: world0_def)
next
  case (no_pipe p1)
  with run spawned show ?thesis by (auto simp: world0_def)
next
  case (no_fork p1 w1)
  with run show ?thesis by simp
next
  case (no_close p1 w1 p2)
  from fork_loop_Inr[OF no_close(3)]
  have w1: "children w1 = map (mk_child (strvec_num_occurrences toks ''|'') p1)
                            (rev [0 ..< Suc (strvec_num_occurrences toks ''|'')])"
    and r1: "reaped w1 = []"
    by (simp_all add: world0_def del: upt_Suc)
  from parent_close_all_Inl[OF no_close(4)]
  have "\<not> (\<forall>k < 2 * strvec_num_occurrences toks ''|''. close_ok e (int k))"
    by auto
  with no_close(5) run w1 r1 show ?thesis by (auto simp del: upt_Suc)
next
  case (waited p1 w1 p2)
  let ?n = "strvec_num_occurrences toks ''|''"
  from fork_loop_Inr[OF waited(3)]
  have w1: "children w1 = map (mk_child ?n p1) (rev [0 ..< Suc ?n])"
    and r1: "reaped w1 = []"
    by (simp_all add: world0_def del: upt_Suc)
  from parent_close_all_Inr[OF waited(4)]
  have ok: "\<forall>k < 2 * ?n. close_ok e (int k)"
    by auto
  from waited(5) run have "w = snd (wait_loop e [0 ..< Suc ?n] 0 (w1\<lparr>me := p2\<rparr>))"
    by simp
  then have "w = w1\<lparr>me := p2, reaped := map (wait_status e) [0 ..< Suc ?n]\<rparr>"
    unfolding wait_loop_world using r1 by simp
  with w1 ok show ?thesis by (simp del: upt_Suc)
qed

text \<open>The hypotheses of C3 hold for \<open>a | b\<close> when every call succeeds.\<close>

theorem C3_waits_unless_close_fails_witness:
  "fst (run_pipelined_commands env_ok [''a'', ''|'', ''b'']) = Returned 0
   \<and> children (snd (run_pipelined_commands env_ok [''a'', ''|'', ''b''])) \<noteq> []
   \<and> length (reaped (snd (run_pipelined_commands env_ok [''a'', ''|'', ''b''])))
       = length (children (snd (run_pipelined_commands env_ok [''a'', ''|'', ''b''])))"
proof -
  let ?r = "run_pipelined_commands env_ok [''a'', ''|'', ''b'']"
  have r: "fst ?r = Returned 0" by code_simp
  have c: "children (snd ?r) \<noteq> []" by code_simp
  have n: "strvec_num_occurrences [''a'', ''|'', ''b''] ''|'' = 1" by code_simp
  have run: "?r = (Returned 0, snd ?r)"
    using r by (metis prod.collapse)
  from C3_waits_unless_close_fails[OF run c] r c show ?thesis
    by (simp add: n env_ok_def)
qed

subsection \<open>C4: the designated endpoints\<close>

text \<open>
  Claim C4 as stated fails: in \<open>a | b\<close> the context of stage 1 reads from index 0, the
  read end of channel 0, not from index \<open>2 * (1 - 1) + 1\<close>, its write end.
\<close>

theorem C4_counterexample:
  "children (snd (run_pipelined_commands env_ok [''a'', ''|'', ''b''])) = [stage1_ab, stage0_ab]
   \<and> stage stage1_ab = 1
   \<and> c_in_idx stage1_ab = 0
   \<and> c_in_idx stage1_ab \<noteq> 2 * (int (stage stage1_ab) - 1) + 1"
  by code_simp

text \<open>
  Claim C4, amended. In a pipeline with \<open>N \<ge> 1\<close> separators every spawned context
  belongs to a stage \<open>i \<le> N\<close>; its read index is the read end \<open>2 * (i - 1)\<close> of the
  previous channel, or \<open>-1\<close> for stage 0; its write index is the write end \<open>2 * i + 1\<close>
  of its own channel, or \<open>-1\<close> for stage \<open>N\<close>.
\<close>

theorem C4_designated_endpoints:
  assumes n: "1 \<le> strvec_num_occurrences toks ''|''"
    and ch: "ch \<in> set (children (snd (run_pipelined_commands e toks)))"
  shows "stage ch \<le> strvec_num_occurrences toks ''|'' \<and>
         c_in_idx ch = (if stage ch = 0 then -1 else 2 * (int (stage ch) - 1)) \<and>
         c_out_idx ch =
           (if stage ch = strvec_num_occurrences toks ''|'' then -1 else 2 * int (stage ch) + 1)"
proof -
  from run_children_form[OF ch] obtain p where
    "stage ch \<le> strvec_num_occurrences toks ''|''"
    "ch = mk_child (strvec_num_occurrences toks ''|'') p (stage ch)"
    by blast
  then have "c_in_idx ch = fst (stage_indices (strvec_num_occurrences toks ''|'') (stage ch))"
    and "c_out_idx ch = snd (stage_indices (strvec_num_occurrences toks ''|'') (stage ch))"
    and "stage ch \<le> strvec_num_occurrences toks ''|''"
    by (simp_all add: mk_child_def) (metis child.select_convs)+
  with n show ?thesis
    by (auto simp: stage_indices_def Let_def)
qed

text \<open>The hypotheses of C4 hold for the middle stage of \<open>a | b | c\<close>.\<close>

theorem C4_designated_endpoints_witness:
  "1 \<le> strvec_num_occurrences [''a'', ''|'', ''b'', ''|'', ''c''] ''|''
   \<and> stage (children (snd (run_pipelined_commands env_ok [''a'', ''|'', ''b'', ''|'', ''c''])) ! 1) = 1
   \<and> c_in_idx (children (snd (run_pipelined_commands env_ok [''a'', ''|'', ''b'', ''|'', ''c''])) ! 1) = 0
   \<and> c_out_idx (children (snd (run_pipelined_commands env_ok [''a'', ''|'', ''b'', ''|'', ''c''])) ! 1) = 3"
proof -
  let ?cs = "children (snd (run_pipelined_commands env_ok [''a'', ''|'', ''b'', ''|'', ''c'']))"
  have n: "strvec_num_occurrences [''a'', ''|'', ''b'', ''|'', ''c''] ''|'' = 2" by code_simp
  have len: "length ?cs = 3" by code_simp
  have st: "stage (?cs ! 1) = 1" by code_simp
  have m: "?cs ! 1 \<in> set ?cs" using len by (intro nth_mem) simp
  from C4_designated_endpoints[OF _ m] st show ?thesis
    by (simp add: n)
qed

subsection \<open>C5: the endpoints a context keeps\<close>

text \<open>
  Claim C5. A spawned context starts with all \<open>2 * N\<close> endpoints open. If its cleanup
  loop runs to the end, every \<^verbatim>\<open>close\<close> of an endpoint other than the two designated
  ones has succeeded and exactly the designated endpoints are left open, all the others
  being closed. Otherwise some such \<^verbatim>\<open>close\<close> has failed and the context ends with exit
  status 1. The parent and the other contexts run on states and environments of their
  own, so that nothing of this reaches them but the exit status.
\<close>

theorem C5_child_cleanup:
  assumes ch: "ch \<in> set (children (snd (run_pipelined_commands e toks)))"
  shows "fds (start ch) = map int [0 ..< 2 * strvec_num_occurrences toks ''|''] \<and>
    (case close_unused c (strvec_num_occurrences toks ''|'') (c_in_idx ch) (c_out_idx ch)
            [0 ..< strvec_num_occurrences toks ''|''] (start ch) of
       Continue p' \<Rightarrow>
         (\<forall>k < 2 * strvec_num_occurrences toks ''|''.
             int k \<noteq> c_in_idx ch \<and> int k \<noteq> c_out_idx ch \<longrightarrow> c_close_ok c (int k)) \<and>
         fds p' = filter (\<lambda>k. k = c_in_idx ch \<or> k = c_out_idx ch) (fds (start ch))
     | Terminated st q \<Rightarrow>
         (\<exists>k < 2 * strvec_num_occurrences toks ''|''.
             int k \<noteq> c_in_idx ch \<and> int k \<noteq> c_out_idx ch \<and> \<not> c_close_ok c (int k)) \<and>
         st = Exited 1 \<and>
         fst (child_main c (strvec_num_occurrences toks ''|'') ch) = Exited 1)"
proof -
  let ?n = "strvec_num_occurrences toks ''|''"
  let ?p = "(init_proc toks)\<lparr>fds := map int [0 ..< 2 * ?n]\<rparr>"
  from run_children_form[OF ch] have form: "ch = mk_child ?n ?p (stage ch)"
    by blast
  have st: "start ch = ?p"
    and ii: "c_in_idx ch = fst (stage_indices ?n (stage ch))"
    and oi: "c_out_idx ch = snd (stage_indices ?n (stage ch))"
    by (subst form, simp add: mk_child_def)+
  have par: "c_in_idx ch = -1 \<or> even (c_in_idx ch)" "odd (c_out_idx ch)"
    unfolding ii oi using stage_indices_parity[of ?n "stage ch"] by blast+
  note un = set_unneeded[OF par, of ?n]
  have fds0: "fds (start ch) = map int [0 ..< 2 * ?n]"
    by (simp add: st)
  show ?thesis
  proof (cases "close_unused c ?n (c_in_idx ch) (c_out_idx ch) [0 ..< ?n] (start ch)")
    case (Continue p')
    from close_unused_Continue[OF Continue]
    have ok: "\<forall>k \<in> set (unneeded (c_in_idx ch) (c_out_idx ch) [0 ..< ?n]). c_close_ok c k"
      and p': "fds p' = filter (\<lambda>k. k \<notin> set (unneeded (c_in_idx ch) (c_out_idx ch) [0 ..< ?n]))
                          (fds (start ch))"
      by simp_all
    from ok have a: "\<forall>k < 2 * ?n. int k \<noteq> c_in_idx ch \<and> int k \<noteq> c_out_idx ch \<longrightarrow> c_close_ok c (int k)"
      unfolding un by simp
    have b: "fds p' = filter (\<lambda>k. k = c_in_idx ch \<or> k = c_out_idx ch) (fds (start ch))"
      unfolding p' un fds0 by (rule filter_cong) auto
    from a b fds0 Continue show ?thesis by simp
  next
    case (Terminated s q)
    have "\<not> stdout_buffered (start ch)"
      by (simp add: st init_proc_def)
    from close_unused_Terminated[OF Terminated this]
    have s: "s = Exited 1"
      and "\<exists>k \<in> set (unneeded (c_in_idx ch) (c_out_idx ch) [0 ..< ?n]). \<not> c_close_ok c k"
      by simp_all
    then obtain k where k: "0 \<le> k" "k < 2 * int ?n" "k \<noteq> c_in_idx ch" "k \<noteq> c_out_idx ch"
      "\<not> c_close_ok c k"
      unfolding un by auto
    then have a: "\<exists>k < 2 * ?n. int k \<noteq> c_in_idx ch \<and> int k \<noteq> c_out_idx ch \<and> \<not> c_close_ok c (int k)"
      by (intro exI[of _ "nat k"]) auto
    have "fst (child_main c ?n ch) = Exited 1"
      using Terminated s by (simp add: child_main_def)
    with a s fds0 Terminated show ?thesis by simp
  qed
qed

text \<open>The hypothesis of C5 holds for the middle stage of \<open>a | b | c\<close>, which keeps 0 and 3.\<close>

theorem C5_child_cleanup_witness:
  "children (snd (run_pipelined_commands env_ok [''a'', ''|'', ''b'', ''|'', ''c''])) ! 1
     \<in> set (children (snd (run_pipelined_commands env_ok [''a'', ''|'', ''b'', ''|'', ''c''])))
   \<and> (case close_unused cenv_ok 2 0 3 [0 ..< 2]
              (start (children (snd (run_pipelined_commands env_ok
                 [''a'', ''|'', ''b'', ''|'', ''c''])) ! 1)) of
         Continue p' \<Rightarrow> fds p' = [0, 3]
       | Terminated st q \<Rightarrow> False)"
proof -
  let ?cs = "children (snd (run_pipelined_commands env_ok [''a'', ''|'', ''b'', ''|'', ''c'']))"
  have n: "strvec_num_occurrences [''a'', ''|'', ''b'', ''|'', ''c''] ''|'' = 2" by code_simp
  have len: "length ?cs = 3" by code_simp
  have io: "c_in_idx (?cs ! 1) = 0" "c_out_idx (?cs ! 1) = 3" by code_simp+
  have m: "?cs ! 1 \<in> set ?cs" using len by (intro nth_mem) simp
  have c: "case close_unused cenv_ok 2 0 3 [0 ..< 2] (start (?cs ! 1)) of
             Continue p' \<Rightarrow> True | Terminated st q \<Rightarrow> False"
    by code_simp
  have f: "filter (\<lambda>k. k = 0 \<or> k = 3) (map int [0 ..< 4]) = [0, 3]"
    by code_simp
  from C5_child_cleanup[OF m, of cenv_ok] c have
    "case close_unused cenv_ok 2 0 3 [0 ..< 2] (start (?cs ! 1)) of
       Continue p' \<Rightarrow> fds p' = [0, 3] | Terminated st q \<Rightarrow> False"
    unfolding n io by (auto simp: f split: flow.splits)
  with m show ?thesis by blast
qed

subsection \<open>C6: a failed spawn\<close>

text \<open>
  Claim C6 says that after a failed spawn the call still waits for the contexts spawned
  before and then reports failure to its caller. What the code does when the \<^verbatim>\<open>fork\<close>
  for stage \<open>k\<close> fails after those for the stages above \<open>k\<close> succeeded: the contexts of
  the stages \<open>N\<close> down to \<open>k + 1\<close> have been spawned and none of them is waited for; the
  parent closes its endpoints in order, up to the first \<^verbatim>\<open>close\<close> that fails; and line
  124 ends the calling process with \<^verbatim>\<open>exit(1)\<close>, so that nothing is returned to the
  caller. Every other failure path of the parent (lines 79 to 81, 86 to 98 and 232 to
  236) returns \<open>-1\<close>, and the comment of line 124 is the one of the child's exits.
\<close>

theorem C6_spawn_failure_exits:
  assumes mem: "malloc_ok e"
    and pipes: "\<forall>i < strvec_num_occurrences toks ''|''. pipe_ok e i"
    and k: "k \<le> strvec_num_occurrences toks ''|''"
    and earlier: "\<forall>i. k < i \<and> i \<le> strvec_num_occurrences toks ''|'' \<longrightarrow> fork_ok e i"
    and fails: "\<not> fork_ok e k"
  shows "fst (run_pipelined_commands e toks) = ProcExit 1 \<and>
         map stage (children (snd (run_pipelined_commands e toks)))
           = rev [Suc k ..< Suc (strvec_num_occurrences toks ''|'')] \<and>
         reaped (snd (run_pipelined_commands e toks)) = [] \<and>
         fds (me (snd (run_pipelined_commands e toks)))
           = dropWhile (close_ok e) (map int [0 ..< 2 * strvec_num_occurrences toks ''|''])"
proof -
  let ?n = "strvec_num_occurrences toks ''|''"
  let ?p1 = "(init_proc toks)\<lparr>fds := fds (init_proc toks) @ endpoints [0 ..< ?n]\<rparr>"
  have sp: "setup_pipes e [0 ..< ?n] (init_proc toks) = Inr ?p1"
    using pipes by (intro setup_pipes_all_ok) simp
  have "fds ?p1 = endpoints [0 ..< ?n]"
    by (simp add: init_proc_def)
  then have f: "fds (close_pairs (close_ok e) [0 ..< ?n] ?p1)
                  = dropWhile (close_ok e) (map int [0 ..< 2 * ?n])"
    by (subst close_pairs_dropWhile) (simp_all add: endpoints_upt)
  have fl: "fork_loop e ?n (rev [0 ..< Suc ?n]) (world0 ?p1) =
      Inl ((world0 ?p1)\<lparr>me := close_pairs (close_ok e) [0 ..< ?n] (me (world0 ?p1)),
             children := children (world0 ?p1) @
                 map (mk_child ?n (me (world0 ?p1))) (rev [Suc k ..< Suc ?n])\<rparr>)"
    unfolding rev_upt_split[OF k]
    using earlier fails by (intro fork_loop_fail_at) auto
  show ?thesis
  proof (cases e toks rule: run_paths)
    case no_memory
    with mem show ?thesis by simp
  next
    case (no_pipe p1)
    with sp show ?thesis by simp
  next
    case (no_fork p1 w1)
    from sp no_fork(2) have "p1 = ?p1" by simp
    with fl no_fork(3) have "children w1 = map (mk_child ?n ?p1) (rev [Suc k ..< Suc ?n])"
      and "reaped w1 = []"
      and "me w1 = close_pairs (close_ok e) [0 ..< ?n] ?p1"
      by (auto simp: world0_def simp del: upt_Suc)
    with no_fork(4) f show ?thesis
      by (simp add: stage_mk_child del: upt_Suc)
  next
    case (no_close p1 w1 p2)
    with sp fl show ?thesis by simp
  next
    case (waited p1 w1 p2)
    with sp fl show ?thesis by simp
  qed
qed

text \<open>
  For \<open>a | b\<close>, when the \<^verbatim>\<open>fork\<close> for stage 0 fails after stage 1 was spawned, the calling
  process exits with status 1 and the context of stage 1 is never waited for.
\<close>

theorem C6_spawn_failure_exits_witness:
  "fst (run_pipelined_commands env_fork0_fails [''a'', ''|'', ''b'']) = ProcExit 1
   \<and> map stage (children (snd (run_pipelined_commands env_fork0_fails [''a'', ''|'', ''b''])))
       = [1]
   \<and> reaped (snd (run_pipelined_commands env_fork0_fails [''a'', ''|'', ''b''])) = []
   \<and> fds (me (snd (run_pipelined_commands env_fork0_fails [''a'', ''|'', ''b'']))) = []"
proof -
  have n: "strvec_num_occurrences [''a'', ''|'', ''b''] ''|'' = 1" by code_simp
  have l: "rev [Suc 0 ..< Suc 1] = [1]" by code_simp
  have d: "dropWhile (close_ok env_fork0_fails) (map int [0 ..< 2 * 1]) = []" by code_simp
  from C6_spawn_failure_exits[where e = env_fork0_fails and k = 0
      and toks = "[''a'', ''|'', ''b'']"]
  show ?thesis
    unfolding n l d by (simp add: env_fork0_fails_def env_ok_def)
qed

subsection \<open>C7: malformed token sequences\<close>

text \<open>
  Claim C7 as stated fails: the sequence \<open>| a\<close> starts with a separator, and two
  contexts are spawned for it.
\<close>

theorem C7_counterexample:
  "[''|'', ''a''] ! 0 = ''|''
   \<and> length (children (snd (run_pipelined_commands env_ok [''|'', ''a'']))) = 2"
  by code_simp

text \<open>
  Claim C7, amended. The orchestrator does not inspect the shape of the token sequence:
  it counts the \<open>N\<close> separators, and when \<^verbatim>\<open>malloc\<close>, the \<open>N\<close> calls of \<^verbatim>\<open>pipe\<close> and the
  \<open>N + 1\<close> calls of \<^verbatim>\<open>fork\<close> succeed, it spawns one context for each of the stages \<open>N\<close>
  down to 0, for any sequence, malformed or not.
\<close>

theorem C7_no_validation:
  assumes mem: "malloc_ok e"
    and pipes: "\<forall>i < strvec_num_occurrences toks ''|''. pipe_ok e i"
    and forks: "\<forall>i \<le> strvec_num_occurrences toks ''|''. fork_ok e i"
  shows "map stage (children (snd (run_pipelined_commands e toks)))
           = rev [0 ..< Suc (strvec_num_occurrences toks ''|'')]"
proof -
  let ?n = "strvec_num_occurrences toks ''|''"
  let ?p1 = "(init_proc toks)\<lparr>fds := fds (init_proc toks) @ endpoints [0 ..< ?n]\<rparr>"
  have sp: "setup_pipes e [0 ..< ?n] (init_proc toks) = Inr ?p1"
    using pipes by (intro setup_pipes_all_ok) simp
  have fl: "fork_loop e ?n (rev [0 ..< Suc ?n]) (world0 ?p1) =
      Inr ((world0 ?p1)\<lparr>children := children (world0 ?p1) @
                 map (mk_child ?n (me (world0 ?p1))) (rev [0 ..< Suc ?n])\<rparr>)"
    using forks by (intro fork_loop_all_ok) auto
  show ?thesis
  proof (cases e toks rule: run_paths)
    case no_memory
    with mem show ?thesis by simp
  next
    case (no_pipe p1)
    with sp show ?thesis by simp
  next
    case (no_fork p1 w1)
    with sp fl show ?thesis by simp
  next
    case (no_close p1 w1 p2)
    from sp no_close(2) have "p1 = ?p1" by simp
    with fl no_close(3) have "children w1 = map (mk_child ?n ?p1) (rev [0 ..< Suc ?n])"
      by (auto simp: world0_def simp del: upt_Suc)
    with no_close(5) show ?thesis
      by (simp add: stage_mk_child del: upt_Suc)
  next
    case (waited p1 w1 p2)
    from sp waited(2) have "p1 = ?p1" by simp
    with fl waited(3) have "children w1 = map (mk_child ?n ?p1) (rev [0 ..< Suc ?n])"
      by (auto simp: world0_def simp del: upt_Suc)
    with waited(5) show ?thesis
      by (simp add: stage_mk_child wait_loop_world del: upt_Suc)
  qed
qed

text \<open>The hypotheses of C7 hold for \<open>a | | b\<close>, with its doubled separator.\<close>

theorem C7_no_validation_witness:
  "map stage (children (snd (run_pipelined_commands env_ok [''a'', ''|'', ''|'', ''b''])))
     = [2, 1, 0]"
proof -
  have n: "strvec_num_occurrences [''a'', ''|'', ''|'', ''b''] ''|'' = 2" by code_simp
  have l: "rev [0 ..< Suc 2] = [2, 1, 0]" by code_simp
  from C7_no_validation[of env_ok "[''a'', ''|'', ''|'', ''b'']"]
  show ?thesis
    unfolding n l by (simp add: env_ok_def)
qed

subsection \<open>C8: a failed channel creation\<close>

text \<open>
  Claim C8 as stated fails: for \<open>a | b | c | d\<close>, when the third \<^verbatim>\<open>pipe\<close> fails and
  then the \<^verbatim>\<open>close\<close> of endpoint 0 fails, the call returns \<open>-1\<close> at once (the nested
  error of lines 88 to 91) and the four endpoints created are still open.
\<close>

theorem C8_counterexample:
  "fst (run_pipelined_commands env_pipe2_close0_fail
          [''a'', ''|'', ''b'', ''|'', ''c'', ''|'', ''d'']) = Returned (-1)
   \<and> fds (me (snd (run_pipelined_commands env_pipe2_close0_fail
          [''a'', ''|'', ''b'', ''|'', ''c'', ''|'', ''d'']))) = [0, 1, 2, 3]"
  by code_simp

text \<open>
  Claim C8, amended. If \<^verbatim>\<open>pipe\<close> fails for channel \<open>k < N\<close> after the channels below
  \<open>k\<close> were created, the call returns \<open>-1\<close>, no context is spawned and none is waited
  for; the endpoints \<open>0\<close> to \<open>2 * k - 1\<close> are closed in order up to the first \<^verbatim>\<open>close\<close>
  that fails, so that all of them are closed when every \<^verbatim>\<open>close\<close> succeeds, and
  those from the failing one on stay open otherwise.
\<close>

theorem C8_partial_allocation:
  assumes mem: "malloc_ok e"
    and k: "k < strvec_num_occurrences toks ''|''"
    and created: "\<forall>i < k. pipe_ok e i"
    and fails: "\<not> pipe_ok e k"
  shows "fst (run_pipelined_commands e toks) = Returned (-1) \<and>
         children (snd (run_pipelined_commands e toks)) = [] \<and>
         reaped (snd (run_pipelined_commands e toks)) = [] \<and>
         fds (me (snd (run_pipelined_commands e toks)))
           = dropWhile (close_ok e) (map int [0 ..< 2 * k])"
proof -
  let ?n = "strvec_num_occurrences toks ''|''"
  let ?p = "(init_proc toks)\<lparr>fds := fds (init_proc toks) @ endpoints [0 ..< k]\<rparr>"
  have sp: "setup_pipes e [0 ..< ?n] (init_proc toks) = Inl (close_pairs (close_ok e) [0 ..< k] ?p)"
    unfolding upt_split[OF k] using created fails by (intro setup_pipes_fail_at) auto
  have "fds ?p = endpoints [0 ..< k]"
    by (simp add: init_proc_def)
  then have f: "fds (close_pairs (close_ok e) [0 ..< k] ?p) = dropWhile (close_ok e) (map int [0 ..< 2 * k])"
    by (subst close_pairs_dropWhile) (simp_all add: endpoints_upt)
  show ?thesis
  proof (cases e toks rule: run_paths)
    case no_memory
    with mem show ?thesis by simp
  next
    case (no_pipe p1)
    with sp f show ?thesis by (simp add: world0_def)
  next
    case (no_fork p1 w1)
    with sp show ?thesis by simp
  next
    case (no_close p1 w1 p2)
    with sp show ?thesis by simp
  next
    case (waited p1 w1 p2)
    with sp show ?thesis by simp
  qed
qed

text \<open>The hypotheses of C8 hold for \<open>a | b | c | d\<close> when the third \<^verbatim>\<open>pipe\<close> fails.\<close>

theorem C8_partial_allocation_witness:
  "fst (run_pipelined_commands env_pipe2_fails
          [''a'', ''|'', ''b'', ''|'', ''c'', ''|'', ''d'']) = Returned (-1)
   \<and> children (snd (run_pipelined_commands env_pipe2_fails
          [''a'', ''|'', ''b'', ''|'', ''c'', ''|'', ''d''])) = []
   \<and> fds (me (snd (run_pipelined_commands env_pipe2_fails
          [''a'', ''|'', ''b'', ''|'', ''c'', ''|'', ''d'']))) = []"
proof -
  have n: "strvec_num_occurrences [''a'', ''|'', ''b'', ''|'', ''c'', ''|'', ''d''] ''|'' = 3"
    by code_simp
  have d: "dropWhile (close_ok env_pipe2_fails) (map int [0 ..< 2 * 2]) = []"
    by code_simp
  from C8_partial_allocation[where e = env_pipe2_fails and k = 2
      and toks = "[''a'', ''|'', ''b'', ''|'', ''c'', ''|'', ''d'']"]
  show ?thesis
    unfolding n d by (simp add: env_pipe2_fails_def env_ok_def)
qed

subsection \<open>C9: a failed close in the stage launcher\<close>

text \<open>
  Claim C9 says that a failed \<^verbatim>\<open>close\<close> of a designated endpoint makes the context end
  as failed. The code is run on stage 1 of \<open>a | b\<close>, whose read index is 0, with
  \<^verbatim>\<open>run_command\<close> coming back with 0 and the \<^verbatim>\<open>close\<close> of endpoint 0 failing: the stage
  launcher returns 1, the child compares that with \<open>-1\<close> only, and the context exits
  with status 0.
\<close>

theorem C9_close_failure_exit_status:
  "children (snd (run_pipelined_commands env_ok [''a'', ''|'', ''b''])) = [stage1_ab, stage0_ab]
   \<and> close_unused cenv_close0_fails 1 0 (-1) [0 ..< 1] forked_ab
       = Continue (forked_ab\<lparr>fds := [0]\<rparr>)
   \<and> run_piped_command cenv_close0_fails [''b''] 0 (-1) (forked_ab\<lparr>fds := [0]\<rparr>)
       = Continue (1, forked_ab\<lparr>fds := [0], stdin_src := Some 0\<rparr>)
   \<and> child_main cenv_close0_fails 1 stage1_ab
       = (Exited 0, forked_ab\<lparr>fds := [0], stdin_src := Some 0\<rparr>)"
  by code_simp

subsection \<open>C10: the caller's token sequence\<close>

text \<open>
  Claim C10. On every path the token sequence of the orchestrator is, at the end of the
  call, the one it was given, and every spawned context starts from a copy of that
  same sequence; what a context does to its copy stays in its own state.
\<close>

theorem C10_tokens_unchanged:
  "tokens (me (snd (run_pipelined_commands e toks))) = toks \<and>
   (\<forall>ch \<in> set (children (snd (run_pipelined_commands e toks))). tokens (start ch) = toks)"
proof
  let ?n = "strvec_num_occurrences toks ''|''"
  have sp: "tokens p1 = toks"
    if "setup_pipes e [0 ..< ?n] (init_proc toks) = Inl p1 \<or>
        setup_pipes e [0 ..< ?n] (init_proc toks) = Inr p1" for p1
    using that setup_pipes_tokens[of e "[0 ..< ?n]" "init_proc toks"]
    by (auto simp: init_proc_def)
  show "tokens (me (snd (run_pipelined_commands e toks))) = toks"
  proof (cases e toks rule: run_paths)
    case no_memory
    then show ?thesis by (simp add: world0_def init_proc_def)
  next
    case (no_pipe p1)
    then show ?thesis using sp[of p1] by (simp add: world0_def)
  next
    case (no_fork p1 w1)
    from fork_loop_Inl[OF no_fork(3)]
    have "me w1 = close_pairs (close_ok e) [0 ..< ?n] p1"
      by (auto simp: world0_def)
    with no_fork(4) sp[of p1] no_fork(2) show ?thesis
      by (simp add: close_pairs_tokens)
  next
    case (no_close p1 w1 p2)
    from fork_loop_Inr[OF no_close(3)] have "me w1 = p1"
      by (simp add: world0_def)
    with parent_close_all_Inl[OF no_close(4)] no_close(5) sp[of p1] no_close(2)
    show ?thesis by simp
  next
    case (waited p1 w1 p2)
    from fork_loop_Inr[OF waited(3)] have m1: "me w1 = p1"
      by (simp add: world0_def)
    from parent_close_all_Inr[OF waited(4)]
    have "parent_close_all (close_ok e) [0 ..< 2 * ?n] (me w1) =
          Inr ((me w1)\<lparr>fds := filter (\<lambda>k. k \<notin> int ` set [0 ..< 2 * ?n]) (fds (me w1))\<rparr>)"
      by (intro parent_close_all_ok) simp
    with waited(4) have "tokens p2 = tokens (me w1)"
      by auto
    with waited(5) m1 sp[of p1] waited(2) show ?thesis
      by (simp add: wait_loop_world)
  qed
next
  show "\<forall>ch \<in> set (children (snd (run_pipelined_commands e toks))). tokens (start ch) = toks"
  proof
    fix ch
    assume "ch \<in> set (children (snd (run_pipelined_commands e toks)))"
    from run_children_form[OF this]
    have "start ch = (init_proc toks)\<lparr>fds := map int [0 ..< 2 * strvec_num_occurrences toks ''|'']\<rparr>"
      by (metis child.select_convs(4) mk_child_def)
    then show "tokens (start ch) = toks"
      by (simp add: init_proc_def)
  qed
qed

text \<open>
  For \<open>a | b\<close> the context of stage 0 truncates its copy to \<open>a\<close>, and the parent still
  holds \<open>a | b\<close>.
\<close>

theorem C10_tokens_unchanged_witness:
  "tokens (me (snd (run_pipelined_commands env_ok [''a'', ''|'', ''b'']))) = [''a'', ''|'', ''b'']
   \<and> tokens (start (last (children (snd (run_pipelined_commands env_ok [''a'', ''|'', ''b'']))))) 
        = [''a'', ''|'', ''b'']
   \<and> tokens (snd (child_main cenv_ok 1
        (last (children (snd (run_pipelined_commands env_ok [''a'', ''|'', ''b'']))))))
        = [''a'']"
proof -
  let ?cs = "children (snd (run_pipelined_commands env_ok [''a'', ''|'', ''b'']))"
  have ne: "?cs \<noteq> []" by code_simp
  then have m: "last ?cs \<in> set ?cs" by simp
  have t: "tokens (snd (child_main cenv_ok 1 (last ?cs))) = [''a'']" by code_simp
  from C10_tokens_unchanged[of env_ok "[''a'', ''|'', ''b'']"] m t show ?thesis
    by blast
qed

end
